theory Spec2Isabelle
  imports Main
begin

section \<open>Strings and the host's character classes\<close>

text \<open>
  The program is Python (\<^verbatim>\<open>src/Exercise_1.py\<close>). A Python \<^verbatim>\<open>str\<close> is a sequence of
  code points and \<^verbatim>\<open>len\<close> counts code points. Here a string is a \<^typ>\<open>string\<close> whose
  \<^typ>\<open>char\<close>s stand for the code points below 256 (ASCII and Latin-1), so \<^const>\<open>length\<close>
  is \<^verbatim>\<open>len\<close>. The three character classes of the host that the program relies on are
  written out on that range:
  \<^item> \<^verbatim>\<open>str.isdigit\<close> accepts \<^verbatim>\<open>0\<close>..\<^verbatim>\<open>9\<close> and the superscript digits U+00B2, U+00B3, U+00B9;
  \<^item> \<^verbatim>\<open>\d\<close> of a regular expression and \<^verbatim>\<open>int\<close> accept the decimal digits \<^verbatim>\<open>0\<close>..\<^verbatim>\<open>9\<close>;
  \<^item> \<^verbatim>\<open>str.strip\<close> removes U+0009..U+000D, U+001C..U+0020, U+0085 and U+00A0.
\<close>

definition decimal_char :: "char \<Rightarrow> bool" where
  "decimal_char c \<longleftrightarrow> 48 \<le> (of_char c :: nat) \<and> (of_char c :: nat) \<le> 57"

definition isdigit_char :: "char \<Rightarrow> bool" where
  "isdigit_char c \<longleftrightarrow>
     decimal_char c \<or> c = CHR 0xB2 \<or> c = CHR 0xB3 \<or> c = CHR 0xB9"

definition isspace_char :: "char \<Rightarrow> bool" where
  "isspace_char c \<longleftrightarrow>
     (let n = (of_char c :: nat)
      in (9 \<le> n \<and> n \<le> 13) \<or> (28 \<le> n \<and> n \<le> 32) \<or> n = 133 \<or> n = 160)"

text \<open>\<^verbatim>\<open>s.isdigit()\<close>: every character is a digit and there is at least one.\<close>

definition isdigit :: "string \<Rightarrow> bool" where
  "isdigit s \<longleftrightarrow> s \<noteq> [] \<and> list_all isdigit_char s"

text \<open>\<^verbatim>\<open>s.strip()\<close>: leading and trailing whitespace removed.\<close>

definition strip :: "string \<Rightarrow> string" where
  "strip s = rev (dropWhile isspace_char (rev (dropWhile isspace_char s)))"

section \<open>Errors\<close>

text \<open>
  Every exception of the program is a branch of the model. The three validation failures
  are Python \<^verbatim>\<open>ValueError\<close>s told apart by their message; \<open>ValueError\<close> and
  \<open>OverflowError\<close> are the ones the host's \<^verbatim>\<open>datetime\<close> raises by itself.
\<close>

datatype error =
    InvalidName       \<comment> \<open>\<^verbatim>\<open>ValueError("Name cannot be empty.")\<close>\<close>
  | InvalidPhone      \<comment> \<open>\<^verbatim>\<open>ValueError("Invalid phone number. Please enter 10 digits.")\<close>\<close>
  | InvalidDate       \<comment> \<open>\<^verbatim>\<open>ValueError("Invalid date format. Please use DD.MM.YYYY.")\<close>\<close>
  | ValueError        \<comment> \<open>raised by \<^verbatim>\<open>datetime\<close>: no match, or a date out of range\<close>
  | OverflowError     \<comment> \<open>raised by \<^verbatim>\<open>date + timedelta\<close>\<close>


section \<open>Fields\<close>

text \<open>Class \<^verbatim>\<open>Field\<close>: one attribute, \<^verbatim>\<open>value\<close>; \<^verbatim>\<open>__str__\<close> is the value.\<close>

datatype field = Field (field_value: string)

definition str_field :: "field \<Rightarrow> string" where
  "str_field f = field_value f"


text \<open>\<^verbatim>\<open>Phone.__init__\<close>, lines 19-22.\<close>

definition Phone :: "string \<Rightarrow> error + field" where
  "Phone v = (if \<not> isdigit v \<or> length v \<noteq> 10 then Inl InvalidPhone else Inr (Field v))"

section \<open>The host's calendar\<close>

text \<open>
  The program computes with \<^verbatim>\<open>datetime.date\<close>. What it uses of it is written out
  here after the host's own definitions (CPython, \<^verbatim>\<open>datetime.py\<close>): the proleptic
  Gregorian calendar of the years 1 to 9999, with 1 January of year 1 as day 1.
  Python's \<^verbatim>\<open>//\<close> and \<^verbatim>\<open>%\<close> round down, as \<open>div\<close> and \<open>mod\<close> do on \<^typ>\<open>int\<close>.
\<close>

definition MINYEAR :: int where "MINYEAR = 1"
definition MAXYEAR :: int where "MAXYEAR = 9999"
definition MAXORDINAL :: int where "MAXORDINAL = 3652059"

definition DAYS_IN_MONTH :: "int list" where
  "DAYS_IN_MONTH = [-1, 31, 28, 31, 30, 31, 30, 31, 31, 30, 31, 30, 31]"

definition DAYS_BEFORE_MONTH :: "int list" where
  "DAYS_BEFORE_MONTH = [-1, 0, 31, 59, 90, 120, 151, 181, 212, 243, 273, 304, 334]"

definition is_leap :: "int \<Rightarrow> bool" where
  "is_leap y \<longleftrightarrow> y mod 4 = 0 \<and> (y mod 100 \<noteq> 0 \<or> y mod 400 = 0)"

definition days_before_year :: "int \<Rightarrow> int" where
  "days_before_year yr = (let y = yr - 1 in y * 365 + y div 4 - y div 100 + y div 400)"

definition days_in_month :: "int \<Rightarrow> int \<Rightarrow> int" where
  "days_in_month y m = (if m = 2 \<and> is_leap y then 29 else DAYS_IN_MONTH ! nat m)"

definition days_before_month :: "int \<Rightarrow> int \<Rightarrow> int" where
  "days_before_month y m = DAYS_BEFORE_MONTH ! nat m + (if m > 2 \<and> is_leap y then 1 else 0)"

definition ymd2ord :: "int \<Rightarrow> int \<Rightarrow> int \<Rightarrow> int" where
  "ymd2ord y m d = days_before_year y + days_before_month y m + d"

text \<open>
  \<^verbatim>\<open>_ord2ymd\<close>, in two parts: the years before the day, then the month and the day
  from the number of days since 1 January, by an estimate of the month that is right or
  one too large.
\<close>

definition month_day :: "bool \<Rightarrow> int \<Rightarrow> int \<times> int" where
  "month_day leapyear n =
     (let m = (n + 50) div 32;
          preceding = DAYS_BEFORE_MONTH ! nat m + (if m > 2 \<and> leapyear then 1 else 0)
      in if preceding > n
         then (m - 1,
               n - (preceding
                     - (DAYS_IN_MONTH ! nat (m - 1) + (if m - 1 = 2 \<and> leapyear then 1 else 0)))
                 + 1)
         else (m, n - preceding + 1))"

definition ord2ymd :: "int \<Rightarrow> int \<times> int \<times> int" where
  "ord2ymd n =
     (let n0 = n - 1;
          n400 = n0 div 146097; r400 = n0 mod 146097;
          n100 = r400 div 36524; r100 = r400 mod 36524;
          n4 = r100 div 1461; r4 = r100 mod 1461;
          n1 = r4 div 365; r1 = r4 mod 365;
          y = n400 * 400 + 1 + n100 * 100 + n4 * 4 + n1
      in if n1 = 4 \<or> n100 = 4 then (y - 1, 12, 31)
         else (y, month_day (n1 = 3 \<and> (n4 \<noteq> 24 \<or> n100 = 3)) r1))"

record date =
  year :: int
  month :: int
  day :: int

text \<open>\<^verbatim>\<open>date(y, m, d)\<close>: the constructor checks its fields and raises \<^verbatim>\<open>ValueError\<close>.\<close>

definition new_date :: "int \<Rightarrow> int \<Rightarrow> int \<Rightarrow> error + date" where
  "new_date y m d =
     (if \<not> (MINYEAR \<le> y \<and> y \<le> MAXYEAR) then Inl ValueError
      else if \<not> (1 \<le> m \<and> m \<le> 12) then Inl ValueError
      else if \<not> (1 \<le> d \<and> d \<le> days_in_month y m) then Inl ValueError
      else Inr \<lparr>year = y, month = m, day = d\<rparr>)"

definition valid_date :: "date \<Rightarrow> bool" where
  "valid_date dt \<longleftrightarrow> new_date (year dt) (month dt) (day dt) = Inr dt"

text \<open>\<^verbatim>\<open>d.replace(year=y)\<close> builds a new date and so checks it again.\<close>

definition replace_year :: "date \<Rightarrow> int \<Rightarrow> error + date" where
  "replace_year dt y = new_date y (month dt) (day dt)"

definition toordinal :: "date \<Rightarrow> int" where
  "toordinal dt = ymd2ord (year dt) (month dt) (day dt)"

definition fromordinal :: "int \<Rightarrow> date" where
  "fromordinal n = (case ord2ymd n of (y, m, d) \<Rightarrow> \<lparr>year = y, month = m, day = d\<rparr>)"

text \<open>\<^verbatim>\<open>d + timedelta(days=n)\<close>.\<close>

definition date_add :: "date \<Rightarrow> int \<Rightarrow> error + date" where
  "date_add dt n =
     (let ord = toordinal dt + n
      in if 0 < ord \<and> ord \<le> MAXORDINAL then Inr (fromordinal ord) else Inl OverflowError)"

text \<open>\<^verbatim>\<open>(a - b).days\<close>.\<close>

definition days_between :: "date \<Rightarrow> date \<Rightarrow> int" where
  "days_between a b = toordinal a - toordinal b"

text \<open>\<^verbatim>\<open>a < b\<close> compares year, month and day in that order.\<close>

definition date_less :: "date \<Rightarrow> date \<Rightarrow> bool" where
  "date_less a b \<longleftrightarrow>
     year a < year b \<or> (year a = year b \<and> (month a < month b \<or> (month a = month b \<and> day a < day b)))"

text \<open>\<^verbatim>\<open>d.weekday()\<close>: Monday is 0.\<close>

definition weekday :: "date \<Rightarrow> int" where
  "weekday dt = (toordinal dt + 6) mod 7"

text \<open>
  \<^verbatim>\<open>d.strftime("%A")\<close>. The program never sets a locale, so the names are those of C.
\<close>

definition DAY_NAMES :: "string list" where
  "DAY_NAMES = [''Monday'', ''Tuesday'', ''Wednesday'', ''Thursday'', ''Friday'',
                ''Saturday'', ''Sunday'']"

definition strftime_A :: "date \<Rightarrow> string" where
  "strftime_A dt = DAY_NAMES ! nat (weekday dt)"

subsection \<open>Parsing a date\<close>

text \<open>
  \<^verbatim>\<open>datetime.strptime(s, '%d.%m.%Y')\<close> turns the format into the regular expression
  \<^verbatim>\<open>(?P<d>3[0-1]|[1-2]\d|0[1-9]|[1-9]| [1-9])\.(?P<m>1[0-2]|0[1-9]|[1-9])\.(?P<Y>\d\d\d\d)\<close>,
  matches it at the start of \<open>s\<close>, refuses what the match leaves over, reads the three
  groups with \<^verbatim>\<open>int\<close> and builds the date. The expression is a sequence of groups, a
  group a list of alternatives tried in order, an alternative a sequence of character
  classes, a class the string of its characters; \<open>match_groups\<close> lists the matches in the
  order in which backtracking finds them and \<open>re_match\<close> is the first.
\<close>

fun match_classes :: "string list \<Rightarrow> string \<Rightarrow> (string \<times> string) option" where
  "match_classes [] s = Some ([], s)"
| "match_classes (p # ps) [] = None"
| "match_classes (p # ps) (c # s) =
     (if c \<in> set p then map_option (\<lambda>(m, r). (c # m, r)) (match_classes ps s) else None)"

definition match_alternatives :: "string list list \<Rightarrow> string \<Rightarrow> (string \<times> string) list" where
  "match_alternatives alts s = List.map_filter (\<lambda>ps. match_classes ps s) alts"

fun match_groups :: "string list list list \<Rightarrow> string \<Rightarrow> (string list \<times> string) list" where
  "match_groups [] s = [([], s)]"
| "match_groups (g # gs) s =
     concat (map (\<lambda>(m, r). map (\<lambda>(ms, r'). (m # ms, r')) (match_groups gs r))
                 (match_alternatives g s))"

definition re_match :: "string list list list \<Rightarrow> string \<Rightarrow> (string list \<times> string) option" where
  "re_match gs s = (case match_groups gs s of [] \<Rightarrow> None | x # _ \<Rightarrow> Some x)"

text \<open>The class \<^verbatim>\<open>\d\<close>, on the code points below 256.\<close>

definition digit_class :: string where
  "digit_class = ''0123456789''"

definition group_d :: "string list list" where
  "group_d = [[''3'', ''01''],
              [''12'', digit_class],
              [''0'', ''123456789''],
              [''123456789''],
              ['' '', ''123456789'']]"

definition group_m :: "string list list" where
  "group_m = [[''1'', ''012''],
              [''0'', ''123456789''],
              [''123456789'']]"

definition group_Y :: "string list list" where
  "group_Y = [[digit_class, digit_class, digit_class, digit_class]]"

definition dot :: "string list list" where
  "dot = [[''.'']]"

definition format_regex :: "string list list list" where
  "format_regex = [group_d, dot, group_m, dot, group_Y]"

text \<open>\<^verbatim>\<open>int(s)\<close> on blanks followed by decimal digits, which is all a group can hold.\<close>

definition py_int :: "string \<Rightarrow> int" where
  "py_int s = foldl (\<lambda>a c. 10 * a + (int (of_char c) - 48)) 0 (strip s)"

definition strptime :: "string \<Rightarrow> error + date" where
  "strptime s =
     (case re_match format_regex s of
        None \<Rightarrow> Inl ValueError
      | Some (found, rest) \<Rightarrow>
          if rest \<noteq> [] then Inl ValueError
          else new_date (py_int (found ! 4)) (py_int (found ! 2)) (py_int (found ! 0)))"

text \<open>\<^verbatim>\<open>Birthday.__init__\<close>, lines 25-30. The field keeps the text as it was given.\<close>

definition Birthday :: "string \<Rightarrow> error + field" where
  "Birthday v =
     (case strptime v of
        Inl e \<Rightarrow> Inl InvalidDate
      | Inr d \<Rightarrow> Inr (Field v))"

section \<open>Records\<close>

text \<open>
  Class \<^verbatim>\<open>Record\<close>: a name, the list of phones in insertion order, and an optional
  birthday (\<^verbatim>\<open>None\<close> until one is set). Each \<^verbatim>\<open>add_phone\<close> makes a fresh
  \<^verbatim>\<open>Phone\<close> object, so no two entries of the list are aliases and the list of values is
  the whole state.
\<close>

record contact =
  name :: field
  phones :: "field list"
  birthday :: "field option"


text \<open>
  A method that mutates its record returns the exception it raised, if any, and the
  record as the call left it.
\<close>


text \<open>\<^verbatim>\<open>Record.remove_phone\<close>, lines 41-42.\<close>

definition remove_phone :: "contact \<Rightarrow> string \<Rightarrow> contact" where
  "remove_phone r phone = r\<lparr>phones := filter (\<lambda>p. field_value p \<noteq> phone) (phones r)\<rparr>"

text \<open>
  \<^verbatim>\<open>Record.edit_phone\<close>, lines 44-49. The loop visits every phone; \<open>seen\<close> holds the
  entries already visited, as the loop left them. There is no \<^verbatim>\<open>break\<close>.
\<close>

fun edit_phone_loop ::
  "string \<Rightarrow> string \<Rightarrow> field list \<Rightarrow> field list \<Rightarrow> error option \<times> field list" where
  "edit_phone_loop old_phone new_phone seen [] = (None, seen)"
| "edit_phone_loop old_phone new_phone seen (phone # rest) =
     (if field_value phone = old_phone then
        (if length new_phone \<noteq> 10 then (Some InvalidPhone, seen @ phone # rest)
         else edit_phone_loop old_phone new_phone (seen @ [Field new_phone]) rest)
      else edit_phone_loop old_phone new_phone (seen @ [phone]) rest)"

definition edit_phone :: "contact \<Rightarrow> string \<Rightarrow> string \<Rightarrow> error option \<times> contact" where
  "edit_phone r old_phone new_phone =
     (case edit_phone_loop old_phone new_phone [] (phones r) of
        (e, ps) \<Rightarrow> (e, r\<lparr>phones := ps\<rparr>))"


text \<open>\<^verbatim>\<open>'; '.join(xs)\<close>.\<close>

fun join :: "string \<Rightarrow> string list \<Rightarrow> string" where
  "join sep [] = []"
| "join sep [x] = x"
| "join sep (x # y # ys) = x @ sep @ join sep (y # ys)"

text \<open>\<^verbatim>\<open>Record.__str__\<close>, lines 54-57.\<close>

definition str_record :: "contact \<Rightarrow> string" where
  "str_record r =
     (let phones_str = join ''; '' (map str_field (phones r));
          birthday_str = (case birthday r of Some b \<Rightarrow> str_field b | None \<Rightarrow> ''No birthday'')
      in ''Contact name: '' @ field_value (name r) @ '', phones: '' @ phones_str
           @ '', birthday: '' @ birthday_str)"

section \<open>The address book\<close>

text \<open>
  Class \<^verbatim>\<open>AddressBook\<close> is a \<^verbatim>\<open>UserDict\<close>: its \<^verbatim>\<open>data\<close> is a Python dictionary, which
  keeps its keys in insertion order. It is the list of its items in that order.
\<close>

type_synonym addressbook = "(string \<times> contact) list"

text \<open>\<^verbatim>\<open>d[k] = v\<close>: a key already present keeps its place, a new key goes last.\<close>

fun dict_set :: "('k \<times> 'v) list \<Rightarrow> 'k \<Rightarrow> 'v \<Rightarrow> ('k \<times> 'v) list" where
  "dict_set [] k v = [(k, v)]"
| "dict_set ((k', v') # d) k v =
     (if k' = k then (k, v) # d else (k', v') # dict_set d k v)"

text \<open>\<^verbatim>\<open>AddressBook.add_record\<close>, lines 60-61.\<close>

definition add_record :: "addressbook \<Rightarrow> contact \<Rightarrow> addressbook" where
  "add_record book r = dict_set book (field_value (name r)) r"

text \<open>\<^verbatim>\<open>AddressBook.find\<close>, lines 63-64: \<^verbatim>\<open>dict.get\<close> gives \<^verbatim>\<open>None\<close> for a missing key.\<close>

definition find_record :: "addressbook \<Rightarrow> string \<Rightarrow> contact option" where
  "find_record book n = map_of book n"

text \<open>\<^verbatim>\<open>AddressBook.delete\<close>, lines 66-68.\<close>

definition delete :: "addressbook \<Rightarrow> string \<Rightarrow> addressbook" where
  "delete book n =
     (if n \<in> set (map fst book) then filter (\<lambda>(k, r). k \<noteq> n) book else book)"

text \<open>
  The dictionary's invariant (no key twice), and the program's: a record is only ever
  stored by \<^verbatim>\<open>add_record\<close>, under its own name, and no method changes a name.
\<close>

definition wf_book :: "addressbook \<Rightarrow> bool" where
  "wf_book book \<longleftrightarrow>
     distinct (map fst book) \<and> list_all (\<lambda>(k, r). field_value (name r) = k) book"

section \<open>Birthdays of the week\<close>

text \<open>
  \<^verbatim>\<open>birthdays_by_day[k].append(v)\<close> on a \<^verbatim>\<open>defaultdict(list)\<close>: a missing key is first
  added, last, with an empty list.
\<close>

fun defaultdict_append ::
  "(string \<times> string list) list \<Rightarrow> string \<Rightarrow> string \<Rightarrow> (string \<times> string list) list" where
  "defaultdict_append [] k v = [(k, [v])]"
| "defaultdict_append ((k', vs) # d) k v =
     (if k' = k then (k', vs @ [v]) # d else (k', vs) # defaultdict_append d k v)"

text \<open>
  Lines 78-82: the birthday moved to this year, and to the next one if that day is
  already past. Both \<^verbatim>\<open>replace\<close> calls can raise.
\<close>

definition birthday_this_year :: "date \<Rightarrow> string \<Rightarrow> error + date" where
  "birthday_this_year today v =
     (case strptime v of
        Inl e \<Rightarrow> Inl e
      | Inr b \<Rightarrow>
          (case replace_year b (year today) of
             Inl e \<Rightarrow> Inl e
           | Inr this_year \<Rightarrow>
               if date_less this_year today then replace_year this_year (year today + 1)
               else Inr this_year))"

text \<open>Lines 83-87: the day under which a birthday is reported, if it is reported.\<close>

definition day_of_week :: "date \<Rightarrow> string \<Rightarrow> error + string option" where
  "day_of_week today v =
     (case birthday_this_year today v of
        Inl e \<Rightarrow> Inl e
      | Inr this_year \<Rightarrow>
          (let delta_days = days_between this_year today
           in if delta_days < 7 then
                (case date_add today delta_days of
                   Inl e \<Rightarrow> Inl e
                 | Inr d \<Rightarrow>
                     (let w = strftime_A d
                      in Inr (Some (if w \<in> set [''Saturday'', ''Sunday''] then ''Monday'' else w))))
              else Inr None))"

text \<open>Lines 75-88: the loop over the records, in the order of the dictionary.\<close>

fun birthdays_loop ::
  "date \<Rightarrow> contact list \<Rightarrow> (string \<times> string list) list
     \<Rightarrow> error + (string \<times> string list) list" where
  "birthdays_loop today [] birthdays_by_day = Inr birthdays_by_day"
| "birthdays_loop today (r # rs) birthdays_by_day =
     (case birthday r of
        None \<Rightarrow> birthdays_loop today rs birthdays_by_day
      | Some b \<Rightarrow>
          (case day_of_week today (field_value b) of
             Inl e \<Rightarrow> Inl e
           | Inr None \<Rightarrow> birthdays_loop today rs birthdays_by_day
           | Inr (Some w) \<Rightarrow>
               birthdays_loop today rs
                 (defaultdict_append birthdays_by_day w (field_value (name r)))))"

text \<open>
  \<^verbatim>\<open>AddressBook.get_birthdays_per_week\<close>, lines 70-89, with the date of the day as an
  argument instead of \<^verbatim>\<open>datetime.today().date()\<close>. Line 73 computes \<^verbatim>\<open>next_week\<close>,
  which nothing reads, but the addition can raise.
\<close>

definition get_birthdays_per_week ::
  "date \<Rightarrow> addressbook \<Rightarrow> error + (string \<times> string list) list" where
  "get_birthdays_per_week today book =
     (case date_add today 7 of
        Inl e \<Rightarrow> Inl e
      | Inr next_week \<Rightarrow> birthdays_loop today (map snd book) [])"

text \<open>The names a report holds, bucket after bucket.\<close>

definition reported :: "(string \<times> string list) list \<Rightarrow> string list" where
  "reported birthdays_by_day = concat (map snd birthdays_by_day)"

section \<open>The two commands that validate\<close>




section \<open>Notions of the specification\<close>

text \<open>
  The specification's reading of \<^verbatim>\<open>editPhone\<close>: only the first phone equal to the old
  one is replaced.
\<close>

fun replace_first :: "string \<Rightarrow> string \<Rightarrow> field list \<Rightarrow> field list" where
  "replace_first old new [] = []"
| "replace_first old new (p # ps) =
     (if field_value p = old then Field new # ps else p # replace_first old new ps)"








text \<open>What the loop of the report does with one record: nothing, or one bucket.\<close>

definition bucket :: "date \<Rightarrow> contact \<Rightarrow> error + string option" where
  "bucket today r =
     (case birthday r of None \<Rightarrow> Inr None | Some b \<Rightarrow> day_of_week today (field_value b))"

section \<open>Phones\<close>

lemma decimal_isdigit: "decimal_char c \<Longrightarrow> isdigit_char c"
  by (simp add: isdigit_char_def)

lemma Phone_eq:
  "Phone s = (if length s = 10 \<and> (\<forall>c\<in>set s. isdigit_char c) then Inr (Field s)
              else Inl InvalidPhone)"
  by (auto simp: Phone_def isdigit_def list_all_iff)

text \<open>
  Claim C1, as the program has it. \<^verbatim>\<open>Phone(s)\<close> fails with \<open>InvalidPhone\<close> when \<open>s\<close> is
  not 10 characters long or holds a character that \<^verbatim>\<open>str.isdigit\<close> refuses; it succeeds
  and keeps \<open>s\<close> as its value when \<open>s\<close> is 10 characters that \<^verbatim>\<open>str.isdigit\<close> accepts, so
  in particular when \<open>s\<close> is 10 decimal digits.
\<close>

theorem Phone_accepts:
  "(length s \<noteq> 10 \<or> (\<exists>c\<in>set s. \<not> isdigit_char c) \<longrightarrow> Phone s = Inl InvalidPhone) \<and>
   (length s = 10 \<and> (\<forall>c\<in>set s. isdigit_char c) \<longrightarrow>
      (\<exists>p. Phone s = Inr p \<and> field_value p = s)) \<and>
   (length s = 10 \<and> (\<forall>c\<in>set s. decimal_char c) \<longrightarrow>
      (\<exists>p. Phone s = Inr p \<and> field_value p = s))"
  by (auto simp: Phone_eq decimal_isdigit)

theorem Phone_accepts_witness:
  "Phone ''12345'' = Inl InvalidPhone \<and> Phone ''12345abcde'' = Inl InvalidPhone \<and>
   (\<exists>p. Phone ''0123456789'' = Inr p \<and> field_value p = ''0123456789'')"
  using Phone_accepts [of "''12345''"] Phone_accepts [of "''12345abcde''"]
    Phone_accepts [of "''0123456789''"]
  by (simp add: decimal_char_def isdigit_char_def)

text \<open>
  Claim C1 as it is stated fails: ten times the superscript two (U+00B2), which is not a
  decimal digit, is a phone.
\<close>

theorem Phone_superscript_counterexample:
  "Phone [CHR 0xB2, CHR 0xB2, CHR 0xB2, CHR 0xB2, CHR 0xB2,
          CHR 0xB2, CHR 0xB2, CHR 0xB2, CHR 0xB2, CHR 0xB2] \<noteq> Inl InvalidPhone
   \<and> \<not> decimal_char (CHR 0xB2)"
  by (simp add: Phone_def isdigit_def isdigit_char_def decimal_char_def)

section \<open>Editing a phone\<close>

lemma edit_phone_loop_short:
  "length new_phone \<noteq> 10 \<Longrightarrow>
   edit_phone_loop old new_phone seen ps =
     (if old \<in> field_value ` set ps then (Some InvalidPhone, seen @ ps) else (None, seen @ ps))"
  by (induction ps arbitrary: seen) auto

lemma edit_phone_loop_ok:
  "length new_phone = 10 \<Longrightarrow>
   edit_phone_loop old new_phone seen ps =
     (None, seen @ map (\<lambda>p. if field_value p = old then Field new_phone else p) ps)"
  by (induction ps arbitrary: seen) auto

lemma edit_phone_loop_absent:
  "old \<notin> field_value ` set ps \<Longrightarrow> edit_phone_loop old new_phone seen ps = (None, seen @ ps)"
  by (induction ps arbitrary: seen) auto

lemma replace_first_once:
  "length (filter (\<lambda>p. field_value p = old) ps) = 1 \<Longrightarrow>
   map (\<lambda>p. if field_value p = old then Field new else p) ps = replace_first old new ps"
proof (induction ps)
  case Nil
  then show ?case by simp
next
  case (Cons p ps)
  show ?case
  proof (cases "field_value p = old")
    case True
    with Cons.prems have "filter (\<lambda>p. field_value p = old) ps = []" by simp
    then have "\<forall>q\<in>set ps. field_value q \<noteq> old" by (simp add: filter_empty_conv)
    then have "map (\<lambda>p. if field_value p = old then Field new else p) ps = ps"
      by (simp add: map_idI)
    with True show ?thesis by simp
  next
    case False
    with Cons show ?thesis by simp
  qed
qed

text \<open>
  Claim C5, as the program has it. On a record that has a phone equal to \<open>old\<close>,
  \<^verbatim>\<open>edit_phone(old, new)\<close> raises \<open>InvalidPhone\<close> and changes nothing when \<open>new\<close> is not 10
  characters long (nothing else about \<open>new\<close> is checked); otherwise it puts \<open>new\<close> in the
  place of every phone equal to \<open>old\<close> and leaves the other phones as they are. When
  exactly one phone equals \<open>old\<close>, that is the replacement of the first one.
\<close>

theorem edit_phone_replaces_all:
  assumes "old \<in> field_value ` set (phones r)"
  shows "edit_phone r old new =
           (if length new \<noteq> 10 then (Some InvalidPhone, r)
            else (None, r\<lparr>phones := map (\<lambda>p. if field_value p = old then Field new else p)
                                       (phones r)\<rparr>))
         \<and> (length (filter (\<lambda>p. field_value p = old) (phones r)) = 1 \<and> length new = 10 \<longrightarrow>
              edit_phone r old new = (None, r\<lparr>phones := replace_first old new (phones r)\<rparr>))"
  using assms
  by (simp add: edit_phone_def edit_phone_loop_short edit_phone_loop_ok replace_first_once)

theorem edit_phone_replaces_all_witness:
  "edit_phone \<lparr>name = Field ''Ann'', phones = [Field ''1111111111'', Field ''3333333333''],
               birthday = None\<rparr> ''3333333333'' ''abcdefghij''
   = (None, \<lparr>name = Field ''Ann'', phones = [Field ''1111111111'', Field ''abcdefghij''],
             birthday = None\<rparr>)"
  using edit_phone_replaces_all
    [of "''3333333333''"
        "\<lparr>name = Field ''Ann'', phones = [Field ''1111111111'', Field ''3333333333''],
          birthday = None\<rparr>"
        "''abcdefghij''"]
  by simp

text \<open>
  Claim C5 as it is stated fails: with the same phone twice in the list, both entries are
  replaced, not only the first.
\<close>

theorem edit_phone_first_only_counterexample:
  "snd (edit_phone \<lparr>name = Field ''Ann'', phones = [Field ''1111111111'', Field ''1111111111''],
                    birthday = None\<rparr> ''1111111111'' ''2222222222'')
   \<noteq> \<lparr>name = Field ''Ann'',
       phones = replace_first ''1111111111'' ''2222222222''
                  [Field ''1111111111'', Field ''1111111111''],
       birthday = None\<rparr>"
  by (simp add: edit_phone_def)

text \<open>
  Claim C6. When no phone of the record equals \<open>old\<close>, \<^verbatim>\<open>edit_phone(old, new)\<close> raises
  nothing and leaves the record as it is, whatever \<open>new\<close> is.
\<close>

theorem edit_phone_absent:
  "old \<notin> field_value ` set (phones r) \<Longrightarrow> edit_phone r old new = (None, r)"
  by (simp add: edit_phone_def edit_phone_loop_absent)

theorem edit_phone_absent_witness:
  "edit_phone \<lparr>name = Field ''Ann'', phones = [Field ''1111111111''], birthday = None\<rparr>
     ''3333333333'' ''12''
   = (None, \<lparr>name = Field ''Ann'', phones = [Field ''1111111111''], birthday = None\<rparr>)"
  using edit_phone_absent
    [of "''3333333333''"
        "\<lparr>name = Field ''Ann'', phones = [Field ''1111111111''], birthday = None\<rparr>" "''12''"]
  by simp

section \<open>Rendering a record\<close>

text \<open>
  Claim C9. A record named \<open>X\<close> with no phone and no birthday is rendered as
  \<^verbatim>\<open>Contact name: X, phones: , birthday: No birthday\<close>.
\<close>

theorem str_record_empty:
  "str_record \<lparr>name = Field X, phones = [], birthday = None\<rparr>
   = ''Contact name: '' @ X @ '', phones: , birthday: No birthday''"
  by (simp add: str_record_def)

section \<open>The dictionary\<close>

lemma map_of_dict_set: "map_of (dict_set d k v) = (map_of d)(k \<mapsto> v)"
  by (induction d k v rule: dict_set.induct) (auto simp: fun_eq_iff)

lemma keys_dict_set: "fst ` set (dict_set d k v) = insert k (fst ` set d)"
  by (induction d k v rule: dict_set.induct) auto

lemma length_dict_set:
  "length (dict_set d k v) = (if k \<in> fst ` set d then length d else Suc (length d))"
  by (induction d k v rule: dict_set.induct) auto

lemma distinct_dict_set: "distinct (map fst d) \<Longrightarrow> distinct (map fst (dict_set d k v))"
  by (induction d k v rule: dict_set.induct) (auto simp: keys_dict_set)


lemma values_dict_set: "set (dict_set d k v) \<subseteq> insert (k, v) (set d)"
  by (induction d k v rule: dict_set.induct) auto

lemma wf_book_empty: "wf_book []"
  by (simp add: wf_book_def)

lemma wf_book_add_record: "wf_book book \<Longrightarrow> wf_book (add_record book r)"
  using values_dict_set [of book "field_value (name r)" r]
  by (auto simp: wf_book_def add_record_def distinct_dict_set list_all_iff)

lemma wf_book_delete: "wf_book book \<Longrightarrow> wf_book (delete book n)"
  by (auto simp: wf_book_def delete_def distinct_map_filter list_all_iff)


section \<open>Validation comes first\<close>






section \<open>The calendar: from a date to its ordinal and back\<close>

lemma month_day_table:
  "list_all (\<lambda>L. list_all (\<lambda>m. list_all (\<lambda>d.
       d \<le> (if m = 2 \<and> L then 29 else DAYS_IN_MONTH ! nat m) \<longrightarrow>
       month_day L (DAYS_BEFORE_MONTH ! nat m + (if m > 2 \<and> L then 1 else 0) + d - 1) = (m, d))
     [1..31]) [1..12]) [True, False]"
  by code_simp

lemma month_length_table:
  "list_all (\<lambda>L. list_all (\<lambda>m.
       (if m = 2 \<and> L then 29 else DAYS_IN_MONTH ! nat m) \<le> 31 \<and>
       0 \<le> DAYS_BEFORE_MONTH ! nat m \<and>
       DAYS_BEFORE_MONTH ! nat m + (if m > 2 \<and> L then 1 else 0)
         + (if m = 2 \<and> L then 29 else DAYS_IN_MONTH ! nat m) \<le> (if L then 366 else 365) \<and>
       (m \<noteq> 12 \<longrightarrow> DAYS_BEFORE_MONTH ! nat m + (if m > 2 \<and> L then 1 else 0)
         + (if m = 2 \<and> L then 29 else DAYS_IN_MONTH ! nat m) \<le> 335) \<and>
       (m = 12 \<longrightarrow> DAYS_BEFORE_MONTH ! nat m + (if m > 2 \<and> L then 1 else 0) = (if L then 335 else 334)))
     [1..12]) [True, False]"
  by code_simp

lemma month_day_inverse:
  assumes "1 \<le> m" "m \<le> 12" "1 \<le> d" "d \<le> days_in_month y m"
  shows "month_day (is_leap y) (days_before_month y m + d - 1) = (m, d)"
proof -
  have m: "m \<in> set [1..12]" using assms by simp
  have L: "is_leap y \<in> set [True, False]" by simp
  from month_length_table L m have "days_in_month y m \<le> 31"
    unfolding list_all_iff days_in_month_def by blast
  with assms have d: "d \<in> set [1..31]" by simp
  from month_day_table L m d assms(4) show ?thesis
    unfolding list_all_iff days_in_month_def days_before_month_def by blast
qed

lemma offset_bounds:
  assumes "1 \<le> m" "m \<le> 12" "1 \<le> d" "d \<le> days_in_month y m"
  shows "0 \<le> days_before_month y m + d - 1"
    and "days_before_month y m + d - 1 \<le> (if is_leap y then 365 else 364)"
    and "days_before_month y m + d - 1 = 365 \<Longrightarrow> m = 12 \<and> d = 31"
proof -
  have m: "m \<in> set [1..12]" using assms by simp
  have L: "is_leap y \<in> set [True, False]" by simp
  from month_length_table L m
  have *: "0 \<le> DAYS_BEFORE_MONTH ! nat m"
    "DAYS_BEFORE_MONTH ! nat m + (if m > 2 \<and> is_leap y then 1 else 0)
         + days_in_month y m \<le> (if is_leap y then 366 else 365)"
    "m \<noteq> 12 \<longrightarrow> DAYS_BEFORE_MONTH ! nat m + (if m > 2 \<and> is_leap y then 1 else 0)
         + days_in_month y m \<le> 335"
    "m = 12 \<longrightarrow> DAYS_BEFORE_MONTH ! nat m + (if m > 2 \<and> is_leap y then 1 else 0)
         = (if is_leap y then 335 else 334)"
    unfolding list_all_iff days_in_month_def by blast+
  show "0 \<le> days_before_month y m + d - 1"
    using * assms by (simp add: days_before_month_def)
  show "days_before_month y m + d - 1 \<le> (if is_leap y then 365 else 364)"
    using *(2) assms(4) by (simp add: days_before_month_def split: if_splits)
  show "m = 12 \<and> d = 31" if "days_before_month y m + d - 1 = 365"
    using * assms that by (cases "m = 12") (auto simp: days_before_month_def split: if_splits)
qed

lemma year_digits:
  fixes Y :: int
  assumes "0 \<le> Y"
  obtains a b c e where "Y = 400 * a + 100 * b + 4 * c + e"
    "0 \<le> a" "0 \<le> b" "b \<le> 3" "0 \<le> c" "c \<le> 24" "0 \<le> e" "e \<le> 3"
proof -
  define a where "a = Y div 400"
  define r where "r = Y mod 400"
  define b where "b = r div 100"
  define s where "s = r mod 100"
  define c where "c = s div 4"
  define e where "e = s mod 4"
  have Y: "Y = 400 * a + r" by (simp add: a_def r_def)
  have r: "r = 100 * b + s" by (simp add: b_def s_def)
  have s: "s = 4 * c + e" by (simp add: c_def e_def)
  have rb: "0 \<le> r" "r < 400" by (simp_all add: r_def)
  have sb: "0 \<le> s" "s < 100" by (simp_all add: s_def)
  have eb: "0 \<le> e" "e < 4" by (simp_all add: e_def)
  have "0 \<le> a" using assms by (simp add: a_def)
  moreover have "0 \<le> b" "b \<le> 3" using rb sb r by linarith+
  moreover have "0 \<le> c" "c \<le> 24" using sb eb s by linarith+
  moreover have "Y = 400 * a + 100 * b + 4 * c + e" using Y r s by simp
  ultimately show thesis using that eb by auto
qed

lemma days_before_year_digits:
  assumes "0 \<le> b" "b \<le> 3" "0 \<le> c" "c \<le> 24" "0 \<le> e" "e \<le> (3::int)"
  shows "days_before_year (400 * a + 100 * b + 4 * c + e + 1)
           = 146097 * a + 36524 * b + 1461 * c + 365 * e"
proof -
  let ?Y = "400 * a + 100 * b + 4 * c + e"
  have d4: "?Y div 4 = 100 * a + 25 * b + c"
    by (rule int_div_pos_eq [where r = e]) (use assms in auto)
  have d100: "?Y div 100 = 4 * a + b"
    by (rule int_div_pos_eq [where r = "4 * c + e"]) (use assms in auto)
  have d400: "?Y div 400 = a"
    by (rule int_div_pos_eq [where r = "100 * b + 4 * c + e"]) (use assms in auto)
  show ?thesis
    by (simp add: days_before_year_def Let_def d4 d100 d400)
qed

lemma is_leap_digits:
  assumes "0 \<le> b" "b \<le> 3" "0 \<le> c" "c \<le> 24" "0 \<le> e" "e \<le> (3::int)"
  shows "is_leap (400 * a + 100 * b + 4 * c + e + 1) \<longleftrightarrow> e = 3 \<and> (c \<noteq> 24 \<or> b = 3)"
proof (cases "e = 3")
  case False
  have "(400 * a + 100 * b + 4 * c + e + 1) mod 4 = e + 1"
    by (rule int_mod_pos_eq [where q = "100 * a + 25 * b + c"]) (use assms False in auto)
  with assms False show ?thesis by (simp add: is_leap_def)
next
  case e: True
  have m4: "(400 * a + 100 * b + 4 * c + e + 1) mod 4 = 0"
    by (rule int_mod_pos_eq [where q = "100 * a + 25 * b + c + 1"]) (use e in auto)
  show ?thesis
  proof (cases "c = 24")
    case False
    have "(400 * a + 100 * b + 4 * c + e + 1) mod 100 = 4 * c + 4"
      by (rule int_mod_pos_eq [where q = "4 * a + b"]) (use assms e False in auto)
    with assms e False m4 show ?thesis by (simp add: is_leap_def)
  next
    case c: True
    have m100: "(400 * a + 100 * b + 4 * c + e + 1) mod 100 = 0"
      by (rule int_mod_pos_eq [where q = "4 * a + b + 1"]) (use e c in auto)
    show ?thesis
    proof (cases "b = 3")
      case True
      have "(400 * a + 100 * b + 4 * c + e + 1) mod 400 = 0"
        by (rule int_mod_pos_eq [where q = "a + 1"]) (use e c True in auto)
      with e c True m4 m100 show ?thesis by (simp add: is_leap_def)
    next
      case False
      have "(400 * a + 100 * b + 4 * c + e + 1) mod 400 = 100 * b + 100"
        by (rule int_mod_pos_eq [where q = a]) (use assms e c False in auto)
      with assms e c False m4 m100 show ?thesis by (simp add: is_leap_def)
    qed
  qed
qed

lemma ord2ymd_digits:
  assumes "0 \<le> b" "b \<le> 3" "0 \<le> c" "c \<le> 24" "0 \<le> e" "e \<le> (3::int)"
    and "0 \<le> off" "off \<le> (if e = 3 \<and> (c \<noteq> 24 \<or> b = 3) then 365 else 364)"
    and n: "n = 146097 * a + 36524 * b + 1461 * c + 365 * e + off + 1"
  shows "ord2ymd n =
           (if off = 365 then (400 * a + 100 * b + 4 * c + e + 1, 12, 31)
            else (400 * a + 100 * b + 4 * c + e + 1, month_day (e = 3 \<and> (c \<noteq> 24 \<or> b = 3)) off))"
proof -
  define n0 where "n0 = n - 1"
  define n400 where "n400 = n0 div 146097"
  define r400 where "r400 = n0 mod 146097"
  define n100 where "n100 = r400 div 36524"
  define r100 where "r100 = r400 mod 36524"
  define n4 where "n4 = r100 div 1461"
  define r4 where "r4 = r100 mod 1461"
  define n1 where "n1 = r4 div 365"
  define r1 where "r1 = r4 mod 365"
  have unfold: "ord2ymd n =
      (if n1 = 4 \<or> n100 = 4 then (n400 * 400 + 1 + n100 * 100 + n4 * 4 + n1 - 1, 12, 31)
       else (n400 * 400 + 1 + n100 * 100 + n4 * 4 + n1,
             month_day (n1 = 3 \<and> (n4 \<noteq> 24 \<or> n100 = 3)) r1))"
    by (simp add: ord2ymd_def Let_def n0_def n400_def r400_def n100_def r100_def n4_def r4_def
          n1_def r1_def)
  let ?R1 = "36524 * b + 1461 * c + 365 * e + off"
  let ?R2 = "1461 * c + 365 * e + off"
  let ?R3 = "365 * e + off"
  have n0: "n0 = 146097 * a + ?R1" by (simp add: n0_def n)
  have R3: "0 \<le> ?R3" "?R3 \<le> 1460" using assms by (auto split: if_splits)
  have R2: "0 \<le> ?R2" "?R2 \<le> 36524" using assms by (auto split: if_splits)
  have R1: "0 \<le> ?R1" "?R1 < 146097" using assms by (auto split: if_splits)
  have n400: "n400 = a" unfolding n400_def n0
    by (rule int_div_pos_eq [where r = ?R1]) (use R1 in auto)
  have r400: "r400 = ?R1" unfolding r400_def n0
    by (rule int_mod_pos_eq [where q = a]) (use R1 in auto)
  show ?thesis
  proof (cases "off = 365")
    case False
    with assms have off: "off \<le> 364" by (auto split: if_splits)
    have n100: "n100 = b" unfolding n100_def r400
      by (rule int_div_pos_eq [where r = ?R2]) (use assms off in auto)
    have r100: "r100 = ?R2" unfolding r100_def r400
      by (rule int_mod_pos_eq [where q = b]) (use assms off in auto)
    have n4: "n4 = c" unfolding n4_def r100
      by (rule int_div_pos_eq [where r = ?R3]) (use assms off in auto)
    have r4: "r4 = ?R3" unfolding r4_def r100
      by (rule int_mod_pos_eq [where q = c]) (use assms off in auto)
    have n1: "n1 = e" unfolding n1_def r4
      by (rule int_div_pos_eq [where r = off]) (use assms off in auto)
    have r1: "r1 = off" unfolding r1_def r4
      by (rule int_mod_pos_eq [where q = e]) (use assms off in auto)
    from False assms show ?thesis
      unfolding unfold n400 n100 n4 n1 r1 by auto
  next
    case off: True
    with assms have e: "e = 3" and cb: "c \<noteq> 24 \<or> b = 3" by (auto split: if_splits)
    show ?thesis
    proof (cases "c = 24")
      case False
      have n100: "n100 = b" unfolding n100_def r400
        by (rule int_div_pos_eq [where r = ?R2]) (use assms off e False in auto)
      have r100: "r100 = ?R2" unfolding r100_def r400
        by (rule int_mod_pos_eq [where q = b]) (use assms off e False in auto)
      have n4: "n4 = c" unfolding n4_def r100
        by (rule int_div_pos_eq [where r = ?R3]) (use assms off e in auto)
      have r4: "r4 = ?R3" unfolding r4_def r100
        by (rule int_mod_pos_eq [where q = c]) (use assms off e in auto)
      have n1: "n1 = 4" unfolding n1_def r4
        by (rule int_div_pos_eq [where r = 0]) (use off e in auto)
      from off e show ?thesis
        unfolding unfold n400 n100 n4 n1 by auto
    next
      case c: True
      with cb have b: "b = 3" by simp
      have n100: "n100 = 4" unfolding n100_def r400
        by (rule int_div_pos_eq [where r = 0]) (use off e c b in auto)
      have r100: "r100 = 0" unfolding r100_def r400
        by (rule int_mod_pos_eq [where q = 4]) (use off e c b in auto)
      have n4: "n4 = 0" unfolding n4_def r100 by simp
      have n1: "n1 = 0" unfolding n1_def r4_def r100 by simp
      from off e c b show ?thesis
        unfolding unfold n400 n100 n4 n1 by auto
    qed
  qed
qed

lemma ymd2ord_digits:
  assumes "0 \<le> b" "b \<le> 3" "0 \<le> c" "c \<le> 24" "0 \<le> e" "e \<le> (3::int)"
    and y: "y = 400 * a + 100 * b + 4 * c + e + 1"
  shows "ymd2ord y m d = 146097 * a + 36524 * b + 1461 * c + 365 * e
                          + (days_before_month y m + d - 1) + 1"
  using days_before_year_digits [OF assms(1-6), of a] by (simp add: ymd2ord_def y)

lemma ord2ymd_ymd2ord:
  assumes "1 \<le> y" "1 \<le> m" "m \<le> 12" "1 \<le> d" "d \<le> days_in_month y m"
  shows "ord2ymd (ymd2ord y m d) = (y, m, d)"
proof -
  from assms(1) have "0 \<le> y - 1" by simp
  then obtain a b c e where Y: "y - 1 = 400 * a + 100 * b + 4 * c + e"
    and dg: "0 \<le> b" "b \<le> 3" "0 \<le> c" "c \<le> 24" "0 \<le> e" "e \<le> 3"
    by (rule year_digits)
  from Y have y: "y = 400 * a + 100 * b + 4 * c + e + 1" by simp
  let ?off = "days_before_month y m + d - 1"
  have leap: "is_leap y \<longleftrightarrow> e = 3 \<and> (c \<noteq> 24 \<or> b = 3)"
    unfolding y by (rule is_leap_digits [OF dg])
  have off: "0 \<le> ?off" "?off \<le> (if e = 3 \<and> (c \<noteq> 24 \<or> b = 3) then 365 else 364)"
    using offset_bounds(1,2) [OF assms(2-5)] leap by auto
  have "ord2ymd (ymd2ord y m d) =
      (if ?off = 365 then (y, 12, 31) else (y, month_day (is_leap y) ?off))"
    using ord2ymd_digits [OF dg off ymd2ord_digits [OF dg y]] leap y by simp
  also have "\<dots> = (y, m, d)"
    using offset_bounds(3) [OF assms(2-5)] month_day_inverse [OF assms(2-5)] by auto
  finally show ?thesis .
qed

lemma valid_dateD:
  "valid_date dt \<Longrightarrow>
   1 \<le> year dt \<and> year dt \<le> 9999 \<and> 1 \<le> month dt \<and> month dt \<le> 12 \<and> 1 \<le> day dt \<and>
   day dt \<le> days_in_month (year dt) (month dt)"
  by (auto simp: valid_date_def new_date_def MINYEAR_def MAXYEAR_def split: if_splits)

lemma new_date_valid: "new_date y m d = Inr dt \<Longrightarrow> valid_date dt"
  by (auto simp: valid_date_def new_date_def split: if_splits)

lemma fromordinal_toordinal: "valid_date dt \<Longrightarrow> fromordinal (toordinal dt) = dt"
  using ord2ymd_ymd2ord [of "year dt" "month dt" "day dt"]
  by (auto simp: fromordinal_def toordinal_def dest!: valid_dateD)

lemma toordinal_bounds:
  assumes "valid_date dt"
  shows "0 < toordinal dt" "toordinal dt \<le> MAXORDINAL"
proof -
  let ?y = "year dt" and ?m = "month dt" and ?d = "day dt"
  from valid_dateD [OF assms] have v: "1 \<le> ?y" "?y \<le> 9999" "1 \<le> ?m" "?m \<le> 12" "1 \<le> ?d"
    "?d \<le> days_in_month ?y ?m" by auto
  from v(1) have "0 \<le> ?y - 1" by simp
  then obtain a b c e where Y: "?y - 1 = 400 * a + 100 * b + 4 * c + e"
    and dg: "0 \<le> b" "b \<le> 3" "0 \<le> c" "c \<le> 24" "0 \<le> e" "e \<le> 3" and a: "0 \<le> a"
    by (rule year_digits)
  from Y have y: "?y = 400 * a + 100 * b + 4 * c + e + 1" by simp
  let ?off = "days_before_month ?y ?m + ?d - 1"
  have ord: "toordinal dt = 146097 * a + 36524 * b + 1461 * c + 365 * e + ?off + 1"
    unfolding toordinal_def using ymd2ord_digits [OF dg y] by simp
  have leap: "is_leap ?y \<longleftrightarrow> e = 3 \<and> (c \<noteq> 24 \<or> b = 3)"
    unfolding y by (rule is_leap_digits [OF dg])
  have off: "0 \<le> ?off" "?off \<le> (if is_leap ?y then 365 else 364)"
    using offset_bounds(1,2) [OF v(3-6)] by auto
  show "0 < toordinal dt" using ord a dg off(1) by simp
  have "toordinal dt \<le> 3652059"
  proof (cases "?y = 9999")
    case True
    have "days_before_year 9999 = 3651694" by (simp add: days_before_year_def)
    moreover have "\<not> is_leap 9999" by (simp add: is_leap_def)
    ultimately show ?thesis using off True by (simp add: toordinal_def ymd2ord_def)
  next
    case False
    with v(2) y have "400 * a + 100 * b + 4 * c + e \<le> 9997" by simp
    then have "1461 * (400 * a + 100 * b + 4 * c + e) \<le> 1461 * 9997"
      by (rule mult_left_mono) simp
    moreover have "4 * (146097 * a + 36524 * b + 1461 * c + 365 * e)
                     \<le> 1461 * (400 * a + 100 * b + 4 * c + e)"
      using dg a by simp
    ultimately have "4 * (146097 * a + 36524 * b + 1461 * c + 365 * e) \<le> 1461 * 9997"
      by (rule order_trans [rotated])
    then have "146097 * a + 36524 * b + 1461 * c + 365 * e \<le> 3651404" by simp
    moreover have "?off \<le> 365" using off by (simp split: if_splits)
    ultimately show ?thesis unfolding ord by simp
  qed
  then show "toordinal dt \<le> MAXORDINAL" by (simp add: MAXORDINAL_def)
qed

lemma birthday_this_year_valid:
  "birthday_this_year today v = Inr a \<Longrightarrow> valid_date a"
  by (auto simp: birthday_this_year_def replace_year_def
      split: sum.splits if_splits dest: new_date_valid)

lemma day_of_week_eq:
  assumes "birthday_this_year today v = Inr a"
  shows "day_of_week today v =
           Inr (if days_between a today < 7
                then Some (if strftime_A a \<in> {''Saturday'', ''Sunday''} then ''Monday''
                           else strftime_A a)
                else None)"
proof -
  have v: "valid_date a" using assms by (rule birthday_this_year_valid)
  have "date_add today (days_between a today) = Inr a"
    using toordinal_bounds [OF v] fromordinal_toordinal [OF v]
    by (simp add: date_add_def days_between_def)
  with assms show ?thesis
    by (simp add: day_of_week_def Let_def)
qed

section \<open>The loop of the report\<close>

lemma birthdays_loop_Cons:
  "birthdays_loop today (r # rs) acc =
     (case bucket today r of
        Inl e \<Rightarrow> Inl e
      | Inr None \<Rightarrow> birthdays_loop today rs acc
      | Inr (Some w) \<Rightarrow> birthdays_loop today rs (defaultdict_append acc w (field_value (name r))))"
  by (simp add: bucket_def split: option.splits)

lemma reported_append:
  "set (reported (defaultdict_append d k v)) = insert v (set (reported d))"
  by (induction d k v rule: defaultdict_append.induct) (auto simp: reported_def)

lemma reported_Cons: "reported ((k, vs) # d) = vs @ reported d"
  by (simp add: reported_def)

lemma distinct_reported_append:
  "distinct (reported (defaultdict_append d k v)) \<longleftrightarrow>
     distinct (reported d) \<and> v \<notin> set (reported d)"
proof (induction d k v rule: defaultdict_append.induct)
  case (1 k v)
  show ?case by (simp add: reported_def)
next
  case (2 k' vs d k v)
  show ?case
  proof (cases "k' = k")
    case True
    then show ?thesis by (auto simp: reported_Cons)
  next
    case False
    with 2 show ?thesis by (auto simp: reported_Cons reported_append)
  qed
qed

lemma keys_append: "fst ` set (defaultdict_append d k v) = insert k (fst ` set d)"
  by (induction d k v rule: defaultdict_append.induct) auto

lemma map_of_append:
  "map_of (defaultdict_append d k v) =
     (map_of d)(k \<mapsto> (case map_of d k of None \<Rightarrow> [] | Some vs \<Rightarrow> vs) @ [v])"
  by (induction d k v rule: defaultdict_append.induct) (auto simp: fun_eq_iff)

lemma loop_all_succeed:
  "birthdays_loop today rs acc = Inr res \<Longrightarrow> r \<in> set rs \<Longrightarrow> \<exists>w. bucket today r = Inr w"
proof (induction rs arbitrary: acc)
  case Nil
  then show ?case by simp
next
  case (Cons x rs)
  from Cons.prems(1) obtain w where w: "bucket today x = Inr w"
    by (auto simp: birthdays_loop_Cons simp del: birthdays_loop.simps split: sum.splits)
  show ?case
  proof (cases "r = x")
    case True
    with w show ?thesis by blast
  next
    case False
    with Cons.prems(2) have "r \<in> set rs" by simp
    moreover from Cons.prems(1) w obtain acc' where "birthdays_loop today rs acc' = Inr res"
      by (auto simp: birthdays_loop_Cons simp del: birthdays_loop.simps split: option.splits)
    ultimately show ?thesis using Cons.IH by blast
  qed
qed

lemma loop_reported:
  "birthdays_loop today rs acc = Inr res \<Longrightarrow>
   set (reported res) =
     set (reported acc) \<union> {field_value (name r) | r. r \<in> set rs \<and> (\<exists>w. bucket today r = Inr (Some w))}"
proof (induction rs arbitrary: acc)
  case Nil
  then show ?case by simp
next
  case (Cons x rs)
  show ?case
  proof (cases "bucket today x")
    case (Inl e)
    with Cons.prems show ?thesis by (simp add: birthdays_loop_Cons del: birthdays_loop.simps)
  next
    case (Inr w)
    show ?thesis
    proof (cases w)
      case None
      with Inr Cons.prems have "birthdays_loop today rs acc = Inr res"
        by (simp add: birthdays_loop_Cons del: birthdays_loop.simps)
      from Cons.IH [OF this] Inr None show ?thesis by auto
    next
      case (Some k)
      with Inr Cons.prems
      have "birthdays_loop today rs (defaultdict_append acc k (field_value (name x))) = Inr res"
        by (simp add: birthdays_loop_Cons del: birthdays_loop.simps)
      from Cons.IH [OF this] Inr Some show ?thesis by (auto simp: reported_append)
    qed
  qed
qed

lemma loop_distinct:
  "birthdays_loop today rs acc = Inr res \<Longrightarrow>
   distinct (map (\<lambda>r. field_value (name r)) rs) \<Longrightarrow> distinct (reported acc) \<Longrightarrow>
   set (reported acc) \<inter> (\<lambda>r. field_value (name r)) ` set rs = {} \<Longrightarrow>
   distinct (reported res)"
proof (induction rs arbitrary: acc)
  case Nil
  then show ?case by simp
next
  case (Cons x rs)
  show ?case
  proof (cases "bucket today x")
    case (Inl e)
    with Cons.prems show ?thesis by (simp add: birthdays_loop_Cons del: birthdays_loop.simps)
  next
    case (Inr w)
    show ?thesis
    proof (cases w)
      case None
      with Inr Cons.prems have "birthdays_loop today rs acc = Inr res"
        by (simp add: birthdays_loop_Cons del: birthdays_loop.simps)
      with Cons.IH [of acc] Cons.prems show ?thesis by auto
    next
      case (Some k)
      let ?acc = "defaultdict_append acc k (field_value (name x))"
      from Some Inr Cons.prems have run: "birthdays_loop today rs ?acc = Inr res"
        by (simp add: birthdays_loop_Cons del: birthdays_loop.simps)
      have "distinct (reported ?acc)"
        using Cons.prems by (auto simp: distinct_reported_append)
      moreover have "set (reported ?acc) \<inter> (\<lambda>r. field_value (name r)) ` set rs = {}"
        using Cons.prems by (auto simp: reported_append)
      moreover have "distinct (map (\<lambda>r. field_value (name r)) rs)"
        using Cons.prems by simp
      ultimately show ?thesis using Cons.IH [OF run] by blast
    qed
  qed
qed

lemma loop_keys:
  "birthdays_loop today rs acc = Inr res \<Longrightarrow>
   fst ` set res = fst ` set acc \<union> {w. \<exists>r\<in>set rs. bucket today r = Inr (Some w)}"
proof (induction rs arbitrary: acc)
  case Nil
  then show ?case by simp
next
  case (Cons x rs)
  show ?case
  proof (cases "bucket today x")
    case (Inl e)
    with Cons.prems show ?thesis by (simp add: birthdays_loop_Cons del: birthdays_loop.simps)
  next
    case (Inr w)
    show ?thesis
    proof (cases w)
      case None
      with Inr Cons.prems have "birthdays_loop today rs acc = Inr res"
        by (simp add: birthdays_loop_Cons del: birthdays_loop.simps)
      from Cons.IH [OF this] Inr None show ?thesis by auto
    next
      case (Some k)
      with Inr Cons.prems
      have "birthdays_loop today rs (defaultdict_append acc k (field_value (name x))) = Inr res"
        by (simp add: birthdays_loop_Cons del: birthdays_loop.simps)
      from Cons.IH [OF this] Inr Some show ?thesis by (auto simp: keys_append)
    qed
  qed
qed

lemma loop_keeps:
  "birthdays_loop today rs acc = Inr res \<Longrightarrow> map_of acc w = Some ns \<Longrightarrow>
   \<exists>ns'. map_of res w = Some ns' \<and> set ns \<subseteq> set ns'"
proof (induction rs arbitrary: acc ns)
  case Nil
  then show ?case by simp
next
  case (Cons x rs)
  show ?case
  proof (cases "bucket today x")
    case (Inl e)
    with Cons.prems show ?thesis by (simp add: birthdays_loop_Cons del: birthdays_loop.simps)
  next
    case (Inr b)
    show ?thesis
    proof (cases b)
      case None
      with Inr Cons.prems have "birthdays_loop today rs acc = Inr res"
        by (simp add: birthdays_loop_Cons del: birthdays_loop.simps)
      from Cons.IH [OF this Cons.prems(2)] show ?thesis .
    next
      case (Some k)
      let ?acc = "defaultdict_append acc k (field_value (name x))"
      from Some Inr Cons.prems have run: "birthdays_loop today rs ?acc = Inr res"
        by (simp add: birthdays_loop_Cons del: birthdays_loop.simps)
      have "\<exists>ms. map_of ?acc w = Some ms \<and> set ns \<subseteq> set ms"
        using Cons.prems(2) by (cases "w = k") (auto simp: map_of_append)
      then obtain ms where ms: "map_of ?acc w = Some ms" "set ns \<subseteq> set ms" by blast
      from Cons.IH [OF run ms(1)] ms(2) show ?thesis by blast
    qed
  qed
qed

lemma loop_bucket:
  "birthdays_loop today rs acc = Inr res \<Longrightarrow> r \<in> set rs \<Longrightarrow> bucket today r = Inr (Some w) \<Longrightarrow>
   \<exists>ns. map_of res w = Some ns \<and> field_value (name r) \<in> set ns"
proof (induction rs arbitrary: acc)
  case Nil
  then show ?case by simp
next
  case (Cons x rs)
  show ?case
  proof (cases "bucket today x")
    case (Inl e)
    with Cons.prems show ?thesis by (simp add: birthdays_loop_Cons del: birthdays_loop.simps)
  next
    case (Inr b)
    show ?thesis
    proof (cases b)
      case None
      with Inr Cons.prems have run: "birthdays_loop today rs acc = Inr res"
        by (simp add: birthdays_loop_Cons del: birthdays_loop.simps)
      from None Inr Cons.prems(2,3) have "r \<in> set rs" by auto
      from Cons.IH [OF run this Cons.prems(3)] show ?thesis .
    next
      case (Some k)
      let ?acc = "defaultdict_append acc k (field_value (name x))"
      from Some Inr Cons.prems have run: "birthdays_loop today rs ?acc = Inr res"
        by (simp add: birthdays_loop_Cons del: birthdays_loop.simps)
      show ?thesis
      proof (cases "r = x")
        case True
        with Inr Some Cons.prems(3) have "k = w" by simp
        then obtain ms where "map_of ?acc w = Some ms" "field_value (name r) \<in> set ms"
          using True by (auto simp: map_of_append)
        with loop_keeps [OF run] show ?thesis by blast
      next
        case False
        with Cons.prems(2) have "r \<in> set rs" by simp
        from Cons.IH [OF run this Cons.prems(3)] show ?thesis .
      qed
    qed
  qed
qed

lemma loop_returns:
  "\<forall>r\<in>set rs. \<exists>w. bucket today r = Inr w \<Longrightarrow> \<exists>res. birthdays_loop today rs acc = Inr res"
proof (induction rs arbitrary: acc)
  case Nil
  then show ?case by simp
next
  case (Cons x rs)
  then obtain w where "bucket today x = Inr w" by auto
  with Cons show ?case
    by (cases w) (simp_all add: birthdays_loop_Cons del: birthdays_loop.simps)
qed

lemma day_of_week_no_weekend:
  "day_of_week today v = Inr (Some w) \<Longrightarrow> w \<noteq> ''Saturday'' \<and> w \<noteq> ''Sunday''"
  by (auto simp: day_of_week_def Let_def split: sum.splits if_splits)

lemma day_of_week_window:
  "day_of_week today v = Inr x \<Longrightarrow>
   \<exists>a. birthday_this_year today v = Inr a \<and> (x \<noteq> None \<longleftrightarrow> days_between a today < 7)"
  by (auto simp: day_of_week_def Let_def split: sum.splits if_splits)

lemma get_birthdays_per_week_loop:
  "get_birthdays_per_week today book = Inr res \<Longrightarrow>
   birthdays_loop today (map snd book) [] = Inr res"
  by (simp add: get_birthdays_per_week_def split: sum.splits)

lemma wf_book_names:
  "wf_book book \<Longrightarrow> map (\<lambda>r. field_value (name r)) (map snd book) = map fst book"
  by (auto simp: wf_book_def list_all_iff)

lemma wf_book_distinct_names:
  assumes "wf_book book"
  shows "distinct (map (\<lambda>r. field_value (name r)) (map snd book))"
proof -
  have "distinct (map fst book)" using assms by (simp add: wf_book_def)
  then show ?thesis unfolding wf_book_names [OF assms] .
qed

lemma bucket_window:
  assumes "bucket today r = Inr x" "birthday r = Some b"
  shows "\<exists>a. birthday_this_year today (field_value b) = Inr a \<and>
             (x \<noteq> None \<longleftrightarrow> days_between a today < 7)"
  using assms day_of_week_window [of today "field_value b" x] by (simp add: bucket_def)

lemma get_birthdays_per_week_returns:
  assumes "date_add today 7 = Inr next_week"
    and "\<forall>(k, r) \<in> set book. \<forall>b. birthday r = Some b \<longrightarrow>
           (\<exists>a. birthday_this_year today (field_value b) = Inr a)"
  shows "\<exists>res. get_birthdays_per_week today book = Inr res"
proof -
  have "\<exists>w. bucket today r = Inr w" if "r \<in> set (map snd book)" for r
  proof (cases "birthday r")
    case None
    then show ?thesis by (simp add: bucket_def)
  next
    case (Some b)
    with that assms(2) obtain a where "birthday_this_year today (field_value b) = Inr a"
      by fastforce
    from day_of_week_eq [OF this] Some show ?thesis by (simp add: bucket_def)
  qed
  then have "\<exists>res. birthdays_loop today (map snd book) [] = Inr res"
    by (intro loop_returns) blast
  with assms(1) show ?thesis by (simp add: get_birthdays_per_week_def)
qed

lemma toordinal_before_last_year:
  assumes "valid_date dt" "year dt < 9999"
  shows "toordinal dt \<le> 3651770"
proof -
  let ?y = "year dt" and ?m = "month dt" and ?d = "day dt"
  from valid_dateD [OF assms(1)] have v: "1 \<le> ?y" "1 \<le> ?m" "?m \<le> 12" "1 \<le> ?d"
    "?d \<le> days_in_month ?y ?m" by auto
  from v(1) have "0 \<le> ?y - 1" by simp
  then obtain a b c e where Y: "?y - 1 = 400 * a + 100 * b + 4 * c + e"
    and dg: "0 \<le> b" "b \<le> 3" "0 \<le> c" "c \<le> 24" "0 \<le> e" "e \<le> 3" and a: "0 \<le> a"
    by (rule year_digits)
  from Y have y: "?y = 400 * a + 100 * b + 4 * c + e + 1" by simp
  let ?off = "days_before_month ?y ?m + ?d - 1"
  have ord: "toordinal dt = 146097 * a + 36524 * b + 1461 * c + 365 * e + ?off + 1"
    unfolding toordinal_def using ymd2ord_digits [OF dg y] by simp
  have off: "?off \<le> 365"
    using offset_bounds(2) [OF v(2-5)] by (simp split: if_splits)
  from assms(2) y have "400 * a + 100 * b + 4 * c + e \<le> 9997" by simp
  then have "1461 * (400 * a + 100 * b + 4 * c + e) \<le> 1461 * 9997"
    by (rule mult_left_mono) simp
  moreover have "4 * (146097 * a + 36524 * b + 1461 * c + 365 * e)
                   \<le> 1461 * (400 * a + 100 * b + 4 * c + e)"
    using dg a by simp
  ultimately have "4 * (146097 * a + 36524 * b + 1461 * c + 365 * e) \<le> 1461 * 9997"
    by (rule order_trans [rotated])
  then have "146097 * a + 36524 * b + 1461 * c + 365 * e \<le> 3651404" by simp
  with off show ?thesis unfolding ord by simp
qed

lemma strptime_valid: "strptime v = Inr d \<Longrightarrow> valid_date d"
  by (auto simp: strptime_def split: option.splits prod.splits if_splits dest: new_date_valid)

lemma days_in_month_other_year:
  assumes "1 \<le> m" "m \<le> 12" "d \<le> days_in_month y m" "\<not> (m = 2 \<and> d = 29)"
  shows "d \<le> days_in_month y' m"
proof (cases "m = 2")
  case True
  with assms(3,4) have "d \<le> 28"
    by (auto simp: days_in_month_def DAYS_IN_MONTH_def split: if_splits)
  with True show ?thesis by (simp add: days_in_month_def DAYS_IN_MONTH_def)
next
  case False
  with assms(3) show ?thesis by (simp add: days_in_month_def)
qed

lemma replace_year_ok:
  assumes "valid_date d" "\<not> (month d = 2 \<and> day d = 29)" "1 \<le> y" "y \<le> 9999"
  shows "replace_year d y = Inr \<lparr>year = y, month = month d, day = day d\<rparr>"
  using valid_dateD [OF assms(1)] assms(3,4)
    days_in_month_other_year [of "month d" "day d" "year d" y] assms(2)
  by (auto simp: replace_year_def new_date_def MINYEAR_def MAXYEAR_def)

lemma birthday_this_year_returns:
  assumes "valid_date today" "year today < 9999" "strptime v = Inr d"
    "\<not> (month d = 2 \<and> day d = 29)"
  shows "\<exists>a. birthday_this_year today v = Inr a"
proof -
  have d: "valid_date d" using assms(3) by (rule strptime_valid)
  from valid_dateD [OF assms(1)] assms(2)
  have y: "1 \<le> year today" "year today \<le> 9999" "1 \<le> year today + 1" "year today + 1 \<le> 9999"
    by auto
  let ?a = "\<lparr>year = year today, month = month d, day = day d\<rparr>"
  have 1: "replace_year d (year today) = Inr ?a"
    using replace_year_ok [OF d assms(4) y(1,2)] .
  have "valid_date ?a" using 1 by (auto simp: replace_year_def dest: new_date_valid)
  from replace_year_ok [OF this _ y(3,4)] assms(4)
  have 2: "replace_year ?a (year today + 1) = Inr \<lparr>year = year today + 1, month = month d, day = day d\<rparr>"
    by simp
  show ?thesis using assms(3) 1 2 by (simp add: birthday_this_year_def)
qed

lemma get_birthdays_per_week_total:
  assumes "valid_date today" "year today < 9999"
    and "\<forall>(k, r) \<in> set book. \<forall>b. birthday r = Some b \<longrightarrow>
           (\<exists>d. strptime (field_value b) = Inr d \<and> \<not> (month d = 2 \<and> day d = 29))"
  shows "\<exists>res. get_birthdays_per_week today book = Inr res"
proof -
  have "date_add today 7 = Inr (fromordinal (toordinal today + 7))"
    using toordinal_before_last_year [OF assms(1,2)] toordinal_bounds(1) [OF assms(1)]
    by (simp add: date_add_def MAXORDINAL_def)
  moreover have "\<forall>(k, r) \<in> set book. \<forall>b. birthday r = Some b \<longrightarrow>
           (\<exists>a. birthday_this_year today (field_value b) = Inr a)"
    using assms(3) birthday_this_year_returns [OF assms(1,2)] by fast
  ultimately show ?thesis by (rule get_birthdays_per_week_returns)
qed

section \<open>The address book: add, find, delete\<close>

text \<open>
  Claim C7. In every book, a record that was just added is found under its name; a name
  that was just deleted is not found; and a second record added under the name of a first
  one takes its place (the book has no more entries than before) and is the one found.
\<close>

theorem add_find_delete:
  "find_record (add_record book c) (field_value (name c)) = Some c \<and>
   find_record (delete book n) n = None \<and>
   (name c' = name c \<longrightarrow>
      find_record (add_record (add_record book c) c') (field_value (name c)) = Some c' \<and>
      length (add_record (add_record book c) c') = length (add_record book c))"
  by (auto simp: find_record_def add_record_def map_of_dict_set delete_def map_of_eq_None_iff
        length_dict_set keys_dict_set)

theorem add_find_delete_witness:
  "find_record
     (add_record (add_record [] \<lparr>name = Field ''Ann'', phones = [], birthday = None\<rparr>)
        \<lparr>name = Field ''Ann'', phones = [Field ''0123456789''], birthday = None\<rparr>) ''Ann''
   = Some \<lparr>name = Field ''Ann'', phones = [Field ''0123456789''], birthday = None\<rparr>"
  using add_find_delete
    [of "[]" "\<lparr>name = Field ''Ann'', phones = [], birthday = None\<rparr>" _
        "\<lparr>name = Field ''Ann'', phones = [Field ''0123456789''], birthday = None\<rparr>"]
  by simp

section \<open>Validate, then commit\<close>



section \<open>The report\<close>

text \<open>
  Claim C2: every record with a birthday is in the report if and only if its birthday,
  moved to this year (or to the next year when that day is before today), is less than 7
  days ahead. The program falls short of it. \<^verbatim>\<open>Birthday\<close> accepts \<^verbatim>\<open>29.02.2020\<close>, but in
  a year that is not a leap year \<^verbatim>\<open>birthday.replace(year=today.year)\<close> (line 79) raises
  \<^verbatim>\<open>ValueError\<close> for it; the loop stops there, no report is returned, and \<^verbatim>\<open>main\<close> (line
  206) does not catch the exception, although every command handler is wrapped in
  \<^verbatim>\<open>input_error\<close>, which does. On 01.03.2025, with Ann born on 29.02.2020 in the book,
  Bob, whose birthday 02.03 is one day ahead, is not reported; alone in the book he is.
\<close>

theorem report_raises_on_leap_day:
  "Birthday ''29.02.2020'' = Inr (Field ''29.02.2020'') \<and>
   get_birthdays_per_week \<lparr>year = 2025, month = 3, day = 1\<rparr>
     [(''Ann'', \<lparr>name = Field ''Ann'', phones = [], birthday = Some (Field ''29.02.2020'')\<rparr>),
      (''Bob'', \<lparr>name = Field ''Bob'', phones = [], birthday = Some (Field ''02.03.1990'')\<rparr>)]
     = Inl ValueError \<and>
   birthday_this_year \<lparr>year = 2025, month = 3, day = 1\<rparr> ''02.03.1990''
     = Inr \<lparr>year = 2025, month = 3, day = 2\<rparr> \<and>
   days_between \<lparr>year = 2025, month = 3, day = 2\<rparr> \<lparr>year = 2025, month = 3, day = 1\<rparr> = 1 \<and>
   get_birthdays_per_week \<lparr>year = 2025, month = 3, day = 1\<rparr>
     [(''Bob'', \<lparr>name = Field ''Bob'', phones = [], birthday = Some (Field ''02.03.1990'')\<rparr>)]
     = Inr [(''Monday'', [''Bob''])]"
  by code_simp

text \<open>
  Where the report is returned, it is as the claim says. The day to which a birthday is
  moved is written out: the month and the day of the stored date, in the year of today,
  or in the year after it when that day is before today.
\<close>

lemma new_date_eq: "new_date y m d = Inr dt \<Longrightarrow> dt = \<lparr>year = y, month = m, day = d\<rparr>"
  by (auto simp: new_date_def split: if_splits)

lemma replace_year_eq: "replace_year bd y = Inr dt \<Longrightarrow> dt = bd\<lparr>year := y\<rparr>"
  by (auto simp: replace_year_def dest!: new_date_eq)

lemma birthday_this_year_anchor:
  assumes "birthday_this_year today v = Inr a"
  shows "\<exists>bd. strptime v = Inr bd \<and>
           a = (if date_less (bd\<lparr>year := year today\<rparr>) today then bd\<lparr>year := year today + 1\<rparr>
                else bd\<lparr>year := year today\<rparr>)"
proof -
  from assms obtain bd where bd: "strptime v = Inr bd"
    by (auto simp: birthday_this_year_def split: sum.splits)
  with assms obtain this_year where ty: "replace_year bd (year today) = Inr this_year"
    by (auto simp: birthday_this_year_def split: sum.splits)
  then have eq: "this_year = bd\<lparr>year := year today\<rparr>" by (rule replace_year_eq)
  show ?thesis
  proof (cases "date_less this_year today")
    case True
    with assms bd ty have "replace_year this_year (year today + 1) = Inr a"
      by (simp add: birthday_this_year_def)
    then have "a = this_year\<lparr>year := year today + 1\<rparr>" by (rule replace_year_eq)
    with True bd eq show ?thesis by simp
  next
    case False
    with assms bd ty have "a = this_year" by (simp add: birthday_this_year_def)
    with False bd eq show ?thesis by simp
  qed
qed

lemma included_iff_within_week:
  assumes "wf_book book" and "get_birthdays_per_week today book = Inr res"
    and "(k, r) \<in> set book" and "birthday r = Some b"
  shows "\<exists>bd a. strptime (field_value b) = Inr bd \<and>
           a = (if date_less (bd\<lparr>year := year today\<rparr>) today then bd\<lparr>year := year today + 1\<rparr>
                else bd\<lparr>year := year today\<rparr>) \<and>
           valid_date a \<and>
           (field_value (name r) \<in> set (reported res) \<longleftrightarrow> days_between a today < 7)"
proof -
  let ?rs = "map snd book"
  have run: "birthdays_loop today ?rs [] = Inr res"
    using assms(2) by (rule get_birthdays_per_week_loop)
  have r: "r \<in> set ?rs" using assms(3) by force
  from loop_all_succeed [OF run r] obtain x where x: "bucket today r = Inr x" by blast
  from bucket_window [OF x assms(4)] obtain a
    where a: "birthday_this_year today (field_value b) = Inr a"
      and win: "x \<noteq> None \<longleftrightarrow> days_between a today < 7" by blast
  have names: "distinct (map (\<lambda>r. field_value (name r)) ?rs)"
    using assms(1) by (rule wf_book_distinct_names)
  have eq: "set (reported res) =
      {field_value (name r') | r'. r' \<in> set ?rs \<and> (\<exists>w. bucket today r' = Inr (Some w))}"
    using loop_reported [OF run] by (simp add: reported_def)
  have "field_value (name r) \<in> set (reported res) \<longleftrightarrow> x \<noteq> None"
  proof
    assume "field_value (name r) \<in> set (reported res)"
    then obtain r' w where r': "r' \<in> set ?rs"
      "field_value (name r') = field_value (name r)" "bucket today r' = Inr (Some w)"
      unfolding eq by force
    from names have "inj_on (\<lambda>r. field_value (name r)) (set ?rs)"
      by (simp only: distinct_map)
    with r r'(1,2) have "r' = r" by (auto dest: inj_onD)
    with r'(3) x show "x \<noteq> None" by simp
  next
    assume "x \<noteq> None"
    with x r show "field_value (name r) \<in> set (reported res)" unfolding eq by auto
  qed
  with a win birthday_this_year_anchor [OF a] birthday_this_year_valid [OF a]
  show ?thesis by blast
qed


lemma included_iff_within_week_example:
  "get_birthdays_per_week \<lparr>year = 2024, month = 6, day = 10\<rparr>
     [(''Bo'', \<lparr>name = Field ''Bo'', phones = [], birthday = Some (Field ''16.06.2024'')\<rparr>),
      (''Cy'', \<lparr>name = Field ''Cy'', phones = [], birthday = Some (Field ''17.06.2024'')\<rparr>)]
     = Inr [(''Monday'', [''Bo''])] \<and>
   ''Cy'' \<notin> set (reported [(''Monday'', [''Bo''])]) \<and>
   days_between \<lparr>year = 2024, month = 6, day = 17\<rparr> \<lparr>year = 2024, month = 6, day = 10\<rparr> = 7"
  by code_simp

text \<open>
  Claim C3. Whenever the report is returned, none of its buckets is named Saturday or
  Sunday, and every record whose birthday of this year (or of the next) is less than 7
  days ahead and falls on a Saturday or a Sunday has its name in the bucket of Monday.
\<close>

theorem weekend_goes_to_Monday:
  assumes "get_birthdays_per_week today book = Inr res"
  shows "''Saturday'' \<notin> fst ` set res \<and> ''Sunday'' \<notin> fst ` set res \<and>
         (\<forall>(k, r) \<in> set book. \<forall>b a.
            birthday r = Some b \<and> birthday_this_year today (field_value b) = Inr a \<and>
            days_between a today < 7 \<and> strftime_A a \<in> {''Saturday'', ''Sunday''} \<longrightarrow>
            (\<exists>names. map_of res ''Monday'' = Some names \<and> field_value (name r) \<in> set names))"
proof -
  let ?rs = "map snd book"
  have run: "birthdays_loop today ?rs [] = Inr res"
    using assms by (rule get_birthdays_per_week_loop)
  have keys: "w \<noteq> ''Saturday'' \<and> w \<noteq> ''Sunday''" if "w \<in> fst ` set res" for w
  proof -
    from that loop_keys [OF run] obtain r where "r \<in> set ?rs" "bucket today r = Inr (Some w)"
      by auto
    then show ?thesis
      using day_of_week_no_weekend [of today _ w] by (auto simp: bucket_def split: option.splits)
  qed
  have monday: "\<exists>names. map_of res ''Monday'' = Some names \<and> field_value (name r) \<in> set names"
    if "(k, r) \<in> set book" "birthday r = Some b"
      "birthday_this_year today (field_value b) = Inr a" "days_between a today < 7"
      "strftime_A a \<in> {''Saturday'', ''Sunday''}" for k r b a
  proof -
    have r: "r \<in> set ?rs" using that(1) by force
    have "bucket today r = Inr (Some ''Monday'')"
      using that(2,4,5) day_of_week_eq [OF that(3)] by (simp add: bucket_def)
    from loop_bucket [OF run r this] show ?thesis .
  qed
  from keys monday show ?thesis by blast
qed

theorem weekend_goes_to_Monday_witness:
  "get_birthdays_per_week \<lparr>year = 2024, month = 6, day = 10\<rparr>
     [(''Ann'', \<lparr>name = Field ''Ann'', phones = [], birthday = Some (Field ''12.06.2024'')\<rparr>),
      (''Bo'', \<lparr>name = Field ''Bo'', phones = [], birthday = Some (Field ''16.06.2024'')\<rparr>)]
     = Inr [(''Wednesday'', [''Ann'']), (''Monday'', [''Bo''])] \<and>
   strftime_A \<lparr>year = 2024, month = 6, day = 16\<rparr> = ''Sunday'' \<and>
   (\<exists>names. map_of [(''Wednesday'', [''Ann'']), (''Monday'', [''Bo''])] ''Monday'' = Some names
       \<and> ''Bo'' \<in> set names)"
proof -
  let ?today = "\<lparr>year = 2024, month = 6, day = 10\<rparr>"
  let ?a = "\<lparr>year = 2024, month = 6, day = 16\<rparr>"
  let ?bo = "\<lparr>name = Field ''Bo'', phones = [], birthday = Some (Field ''16.06.2024'')\<rparr>"
  let ?book = "[(''Ann'', \<lparr>name = Field ''Ann'', phones = [],
                          birthday = Some (Field ''12.06.2024'')\<rparr>), (''Bo'', ?bo)]"
  let ?res = "[(''Wednesday'', [''Ann'']), (''Monday'', [''Bo''])]"
  have 1: "get_birthdays_per_week ?today ?book = Inr ?res" by code_simp
  have 2: "birthday_this_year ?today ''16.06.2024'' = Inr ?a" by code_simp
  have 3: "days_between ?a ?today < 7" by code_simp
  have 4: "strftime_A ?a = ''Sunday''" by code_simp
  have 5: "(''Bo'', ?bo) \<in> set ?book" by simp
  from weekend_goes_to_Monday [OF 1] 5
  have "birthday ?bo = Some (Field ''16.06.2024'') \<and>
        birthday_this_year ?today (field_value (Field ''16.06.2024'')) = Inr ?a \<and>
        days_between ?a ?today < 7 \<and> strftime_A ?a \<in> {''Saturday'', ''Sunday''} \<longrightarrow>
        (\<exists>names. map_of ?res ''Monday'' = Some names \<and> field_value (name ?bo) \<in> set names)"
    by blast
  with 1 2 3 4 show ?thesis by simp
qed

text \<open>
  Claim C10. In a book as the program builds it, whenever the report is returned, no name
  is in it twice, be it in two buckets or in one.
\<close>

theorem no_name_twice:
  assumes "wf_book book" and "get_birthdays_per_week today book = Inr res"
  shows "distinct (reported res)"
proof -
  have run: "birthdays_loop today (map snd book) [] = Inr res"
    using assms(2) by (rule get_birthdays_per_week_loop)
  have "distinct (map (\<lambda>r. field_value (name r)) (map snd book))"
    using assms(1) by (rule wf_book_distinct_names)
  from loop_distinct [OF run this] show ?thesis by (simp add: reported_def)
qed

theorem no_name_twice_witness:
  "get_birthdays_per_week \<lparr>year = 2024, month = 6, day = 10\<rparr>
     [(''Bo'', \<lparr>name = Field ''Bo'', phones = [], birthday = Some (Field ''16.06.2024'')\<rparr>),
      (''Ed'', \<lparr>name = Field ''Ed'', phones = [], birthday = Some (Field ''10.06.1990'')\<rparr>)]
     = Inr [(''Monday'', [''Bo'', ''Ed''])] \<and>
   distinct (reported [(''Monday'', [''Bo'', ''Ed''])])"
proof -
  let ?today = "\<lparr>year = 2024, month = 6, day = 10\<rparr>"
  let ?book = "[(''Bo'', \<lparr>name = Field ''Bo'', phones = [],
                         birthday = Some (Field ''16.06.2024'')\<rparr>),
                (''Ed'', \<lparr>name = Field ''Ed'', phones = [],
                         birthday = Some (Field ''10.06.1990'')\<rparr>)]"
  have 1: "wf_book ?book" by (simp add: wf_book_def)
  have 2: "get_birthdays_per_week ?today ?book = Inr [(''Monday'', [''Bo'', ''Ed''])]"
    by code_simp
  from no_name_twice [OF 1 2] 2 show ?thesis by simp
qed

section \<open>Dates as texts\<close>








































end
